theory Spec2Isabelle
  imports Complex_Main "HOL-Library.Sublist"
begin

section \<open>The event system of libprogbase (src/events/events.c)\<close>

text \<open>
  The C file keeps one process-wide \<open>EventSystem\<close> (a list of handlers and a queue of
  pending events), allocates \<open>Event\<close> and \<open>EventHandler\<close> records with \<open>malloc\<close>, and
  calls back into client code through function pointers. The embedding makes all of that
  explicit:
  \<^item> pointers and function pointers are addresses (\<open>nat\<close>, \<open>0\<close> is \<open>NULL\<close>);
  \<^item> the memory the file touches is a \<open>World\<close> record: the two containers, one store per
    record type, the allocator's high-water mark, the clock and a trace of every effect
    that leaves the file (callback invocations, destructor calls, \<open>free\<close>, sleep requests);
  \<^item> undefined behaviour (a dead or null pointer dereferenced, signed overflow), the
    failed assertion of \<open>EventHandler_new\<close> and running out of fuel are error values;
  \<^item> the three \<open>while\<close> loops that client code can keep alive forever (the broadcast, the
    drain and the frame loop) take fuel.
\<close>

subsection \<open>Addresses, errors, records\<close>

type_synonym ptr = nat
type_synonym fnptr = nat

abbreviation NULL :: nat where
  "NULL \<equiv> 0"

datatype error = OutOfFuel | InvalidPointer | SignedOverflow | AssertFailed

text \<open>\<open>struct Event\<close>: sender, type, data, destructor.\<close>

record Event =
  ev_sender :: ptr
  ev_type :: int
  ev_data :: ptr
  ev_destructor :: fnptr

text \<open>\<open>struct EventHandler\<close>: data, destructor, handler, \<open>_refCount\<close> (a C \<open>int\<close>).\<close>

record EventHandler =
  h_data :: ptr
  h_destructor :: fnptr
  h_handler :: fnptr
  h_refCount :: int

definition INT_MAX :: int where
  "INT_MAX = 2147483647"

definition INT_MIN :: int where
  "INT_MIN = - 2147483648"

text \<open>\<open>typedef enum { EventSystemActionContinue, EventSystemActionExit }\<close>\<close>

datatype EventSystemAction = EventSystemActionContinue | EventSystemActionExit

text \<open>
  Modelled from the spec: the enumerators \<open>StartEventTypeId\<close>, \<open>UpdateEventTypeId\<close> and
  \<open>ExitEventTypeId\<close> are declared in \<open>progbase/events.h\<close>, which is not among the
  sources. The spec names the three public lifecycle tags in this order; they are given
  the values a C enumeration assigns to them.
\<close>

definition StartEventTypeId :: int where
  "StartEventTypeId = 0"

definition UpdateEventTypeId :: int where
  "UpdateEventTypeId = 1"

definition ExitEventTypeId :: int where
  "ExitEventTypeId = 2"

text \<open>\<open>enum { RemoveHandlerEventTypeId = ExitEventTypeId + 1, BreakLoopEventTypeId }\<close>\<close>

definition RemoveHandlerEventTypeId :: int where
  "RemoveHandlerEventTypeId = ExitEventTypeId + 1"

definition BreakLoopEventTypeId :: int where
  "BreakLoopEventTypeId = RemoveHandlerEventTypeId + 1"

subsection \<open>Effects and the world\<close>

text \<open>
  What the file does to its environment, in order. \<open>Invoke h f e ev\<close> is the call
  \<open>self->handler(self, event)\<close> of \<open>EventHandler_handleEvent\<close> with the event record as
  it is at the call; the two destructor entries are the calls \<open>self->destructor(self->data)\<close>
  of \<open>Event_free\<close> and \<open>EventHandler_decref\<close>, tagged with the record that owns the payload.
\<close>

datatype obs =
    Invoke ptr fnptr ptr "Event option"
  | EventDestructor ptr fnptr ptr
  | FreeEvent ptr
  | HandlerDestructor ptr fnptr ptr
  | FreeHandler ptr
  | Sleep real

record World =
  handlers :: "ptr list"
  events :: "ptr list"
  handler_heap :: "ptr \<Rightarrow> EventHandler option"
  event_heap :: "ptr \<Rightarrow> Event option"
  brk :: nat
  trace :: "obs list"
  clock :: "nat \<Rightarrow> real"
  clock_reads :: nat
  elapsedMillis :: real

text \<open>
  \<open>malloc\<close> is assumed to succeed and never hands out an address twice, so an address
  identifies one allocation for the whole run.
\<close>

definition malloc :: "World \<Rightarrow> ptr \<times> World" where
  "malloc s = (Suc (brk s), s\<lparr>brk := Suc (brk s)\<rparr>)"

definition emit_obs :: "obs \<Rightarrow> World \<Rightarrow> World" where
  "emit_obs x s = s\<lparr>trace := trace s @ [x]\<rparr>"

subsection \<open>The collaborators: list, queue, clock, sleep\<close>

text \<open>
  Modelled from the spec: \<open>progbase/collections/list.h\<close> is not among the sources. The
  spec's contract is an ordered mutable sequence with append, get-by-index, count and
  remove-by-identity; removal takes out the first element identical to the reference and
  leaves a list without it unchanged.
\<close>

definition List_new :: "ptr list" where
  "List_new = []"

definition List_add :: "ptr list \<Rightarrow> ptr \<Rightarrow> ptr list" where
  "List_add xs x = xs @ [x]"

definition List_count :: "ptr list \<Rightarrow> nat" where
  "List_count xs = length xs"

definition List_get :: "ptr list \<Rightarrow> nat \<Rightarrow> ptr" where
  "List_get xs i = xs ! i"

definition List_remove :: "ptr list \<Rightarrow> ptr \<Rightarrow> ptr list" where
  "List_remove xs x = remove1 x xs"

text \<open>
  Modelled from the spec: \<open>progbase/collections/queue.h\<close> is not among the sources. The
  spec's contract is a FIFO with enqueue at the tail, dequeue at the head and size.
  \<open>Queue_dequeue\<close> is only ever called on a queue whose size was just found positive.
\<close>

definition Queue_new :: "ptr list" where
  "Queue_new = []"

definition Queue_enqueue :: "ptr list \<Rightarrow> ptr \<Rightarrow> ptr list" where
  "Queue_enqueue q x = q @ [x]"

definition Queue_size :: "ptr list \<Rightarrow> nat" where
  "Queue_size q = length q"

definition Queue_dequeue :: "ptr list \<Rightarrow> ptr \<times> ptr list" where
  "Queue_dequeue q = (hd q, tl q)"

text \<open>
  Modelled from the spec: \<open>progbase/clock.h\<close> and \<open>sleepMillis\<close> are not among the
  sources. The clock gives a reading of "now" and the difference of two readings in
  milliseconds; a reading is a time in milliseconds, and the world carries the readings
  the run will see, one per call. The C \<open>double\<close>s are taken as exact reals. A sleep
  request is recorded with the value of the argument expression.
\<close>

definition Clock_now :: "World \<Rightarrow> real \<times> World" where
  "Clock_now s = (clock s (clock_reads s), s\<lparr>clock_reads := Suc (clock_reads s)\<rparr>)"

definition Clock_diffMillis :: "real \<Rightarrow> real \<Rightarrow> real" where
  "Clock_diffMillis a b = a - b"

definition sleepMillis :: "real \<Rightarrow> World \<Rightarrow> World" where
  "sleepMillis ms s = emit_obs (Sleep ms) s"

subsection \<open>Event\<close>

definition Event_new :: "ptr \<Rightarrow> int \<Rightarrow> ptr \<Rightarrow> fnptr \<Rightarrow> World \<Rightarrow> ptr \<times> World" where
  "Event_new sender type data dest s =
     (case malloc s of (self, s1) \<Rightarrow>
        (self, s1\<lparr>event_heap := (event_heap s1)(self \<mapsto>
           \<lparr>ev_sender = sender, ev_type = type, ev_data = data, ev_destructor = dest\<rparr>)\<rparr>))"

definition Event_free :: "ptr \<Rightarrow> World \<Rightarrow> error + World" where
  "Event_free self s =
     (case event_heap s self of
        None \<Rightarrow> Inl InvalidPointer
      | Some e \<Rightarrow>
          let s1 = (if ev_destructor e \<noteq> NULL \<and> ev_data e \<noteq> NULL
                    then emit_obs (EventDestructor self (ev_destructor e) (ev_data e)) s
                    else s)
          in Inr (emit_obs (FreeEvent self) (s1\<lparr>event_heap := (event_heap s1)(self := None)\<rparr>)))"

subsection \<open>EventHandler\<close>

text \<open>
  \<open>EventHandler_new\<close> asserts that non-null data comes with a destructor; assertions are
  taken to be enabled, so the violation ends the run.
\<close>

definition EventHandler_new :: "ptr \<Rightarrow> fnptr \<Rightarrow> fnptr \<Rightarrow> World \<Rightarrow> error + (ptr \<times> World)" where
  "EventHandler_new data dest handler s =
     (if data \<noteq> NULL \<and> dest = NULL then Inl AssertFailed
      else case malloc s of (self, s1) \<Rightarrow>
        Inr (self, s1\<lparr>handler_heap := (handler_heap s1)(self \<mapsto>
           \<lparr>h_data = data, h_destructor = dest, h_handler = handler, h_refCount = 1\<rparr>)\<rparr>))"

definition EventHandler_incref :: "ptr \<Rightarrow> World \<Rightarrow> error + World" where
  "EventHandler_incref self s =
     (case handler_heap s self of
        None \<Rightarrow> Inl InvalidPointer
      | Some h \<Rightarrow>
          if h_refCount h = INT_MAX then Inl SignedOverflow
          else Inr (s\<lparr>handler_heap := (handler_heap s)(self \<mapsto> h\<lparr>h_refCount := h_refCount h + 1\<rparr>)\<rparr>))"

definition EventHandler_decref :: "ptr \<Rightarrow> World \<Rightarrow> error + World" where
  "EventHandler_decref self s =
     (case handler_heap s self of
        None \<Rightarrow> Inl InvalidPointer
      | Some h \<Rightarrow>
          if h_refCount h = INT_MIN then Inl SignedOverflow
          else if 0 = h_refCount h - 1 then
            let s1 = (if h_destructor h \<noteq> NULL \<and> h_data h \<noteq> NULL
                      then emit_obs (HandlerDestructor self (h_destructor h) (h_data h)) s
                      else s)
            in Inr (emit_obs (FreeHandler self) (s1\<lparr>handler_heap := (handler_heap s1)(self := None)\<rparr>))
          else Inr (s\<lparr>handler_heap := (handler_heap s)(self \<mapsto> h\<lparr>h_refCount := h_refCount h - 1\<rparr>)\<rparr>))"

subsection \<open>EventSystem: registration and emission\<close>

definition EventSystem_addHandler :: "ptr \<Rightarrow> World \<Rightarrow> World" where
  "EventSystem_addHandler handler s = s\<lparr>handlers := List_add (handlers s) handler\<rparr>"

definition EventSystem_raiseEvent :: "ptr \<Rightarrow> World \<Rightarrow> World" where
  "EventSystem_raiseEvent event s = s\<lparr>events := Queue_enqueue (events s) event\<rparr>"

definition EventSystem_emit :: "ptr \<Rightarrow> World \<Rightarrow> World" where
  "EventSystem_emit event s = s\<lparr>events := Queue_enqueue (events s) event\<rparr>"

definition EventSystem_removeHandler :: "ptr \<Rightarrow> World \<Rightarrow> World" where
  "EventSystem_removeHandler handler s =
     (case Event_new NULL RemoveHandlerEventTypeId handler NULL s of
        (e, s1) \<Rightarrow> EventSystem_emit e s1)"

definition EventSystem_exit :: "World \<Rightarrow> World" where
  "EventSystem_exit s =
     (case Event_new NULL BreakLoopEventTypeId NULL NULL s of
        (e, s1) \<Rightarrow> EventSystem_emit e s1)"

definition EventSystem_init :: "World \<Rightarrow> World" where
  "EventSystem_init s = s\<lparr>handlers := List_new, events := Queue_new\<rparr>"

definition EventSystem_getNextEvent :: "World \<Rightarrow> ptr \<times> World" where
  "EventSystem_getNextEvent s =
     (if Queue_size (events s) = 0 then (NULL, s)
      else case Queue_dequeue (events s) of (e, q) \<Rightarrow> (e, s\<lparr>events := q\<rparr>))"

subsection \<open>Client code\<close>

text \<open>
  A callback is client code: what it does to the event system is the sequence of calls
  it makes to the public interface, and the two constructors hand it the fresh address.
  The callback table gives, for a function address, the calls made when it is entered
  with \<open>self\<close> and \<open>event\<close> in a given world, so a callback may depend on anything that
  happened before. Callbacks do not free events, do not run the loop and do not call
  \<open>init\<close> or \<open>cleanup\<close>; payload destructors do not call back into the event system.
\<close>

datatype script =
    Return
  | Call_Event_new ptr int ptr fnptr "ptr \<Rightarrow> script"
  | Call_EventHandler_new ptr fnptr fnptr "ptr \<Rightarrow> script"
  | Call_incref ptr script
  | Call_decref ptr script
  | Call_addHandler ptr script
  | Call_removeHandler ptr script
  | Call_raiseEvent ptr script
  | Call_emit ptr script
  | Call_exit script

type_synonym callbacks = "fnptr \<Rightarrow> ptr \<Rightarrow> ptr \<Rightarrow> World \<Rightarrow> script"

primrec run_script :: "script \<Rightarrow> World \<Rightarrow> error + World" where
  "run_script Return s = Inr s"
| "run_script (Call_Event_new sender type data dest k) s =
     (case Event_new sender type data dest s of (p, s1) \<Rightarrow> run_script (k p) s1)"
| "run_script (Call_EventHandler_new data dest handler k) s =
     (case EventHandler_new data dest handler s of
        Inl e \<Rightarrow> Inl e
      | Inr (p, s1) \<Rightarrow> run_script (k p) s1)"
| "run_script (Call_incref h k) s =
     (case EventHandler_incref h s of Inl e \<Rightarrow> Inl e | Inr s1 \<Rightarrow> run_script k s1)"
| "run_script (Call_decref h k) s =
     (case EventHandler_decref h s of Inl e \<Rightarrow> Inl e | Inr s1 \<Rightarrow> run_script k s1)"
| "run_script (Call_addHandler h k) s = run_script k (EventSystem_addHandler h s)"
| "run_script (Call_removeHandler h k) s = run_script k (EventSystem_removeHandler h s)"
| "run_script (Call_raiseEvent e k) s = run_script k (EventSystem_raiseEvent e s)"
| "run_script (Call_emit e k) s = run_script k (EventSystem_emit e s)"
| "run_script (Call_exit k) s = run_script k (EventSystem_exit s)"

definition EventHandler_handleEvent :: "callbacks \<Rightarrow> ptr \<Rightarrow> ptr \<Rightarrow> World \<Rightarrow> error + World" where
  "EventHandler_handleEvent cb self event s =
     (case handler_heap s self of
        None \<Rightarrow> Inl InvalidPointer
      | Some h \<Rightarrow>
          if h_handler h = NULL then Inl InvalidPointer
          else let s1 = emit_obs (Invoke self (h_handler h) event (event_heap s event)) s
               in run_script (cb (h_handler h) self event s1) s1)"

subsection \<open>The handler enumerator and the broadcast\<close>

text \<open>
  \<open>struct EventHandlerEnumerator\<close> holds a pointer to the system's handler list and an
  index. The pointer is to the one live list, \<open>handlers\<close> of the world; the index is the
  enumerator's own. An enumerator is allocated and freed within one broadcast and never
  leaves the file, so it is a value here and its \<open>malloc\<close> and \<open>free\<close> are not traced.
\<close>

record EventHandlerEnumerator =
  index :: nat

definition EventHandlerEnumerator_new :: "EventHandlerEnumerator" where
  "EventHandlerEnumerator_new = \<lparr>index = 0\<rparr>"

definition EventSystem_getHandlers :: "EventHandlerEnumerator" where
  "EventSystem_getHandlers = EventHandlerEnumerator_new"

definition EventHandlerEnumerator_getNextHandler ::
    "EventHandlerEnumerator \<Rightarrow> World \<Rightarrow> ptr \<times> EventHandlerEnumerator" where
  "EventHandlerEnumerator_getNextHandler self s =
     (if index self \<ge> List_count (handlers s) then (NULL, self)
      else (List_get (handlers s) (index self), self\<lparr>index := Suc (index self)\<rparr>))"

text \<open>
  The inner loop of \<open>EventSystem_loop\<close>:
  \<open>while ((handler = getNextHandler(handlersEnum)) != NULL) handleEvent(handler, event)\<close>.
\<close>

fun broadcast :: "callbacks \<Rightarrow> nat \<Rightarrow> EventHandlerEnumerator \<Rightarrow> ptr \<Rightarrow> World \<Rightarrow> error + World" where
  "broadcast cb 0 handlersEnum event s = Inl OutOfFuel"
| "broadcast cb (Suc n) handlersEnum event s =
     (case EventHandlerEnumerator_getNextHandler handlersEnum s of
        (handler, handlersEnum') \<Rightarrow>
          if handler = NULL then Inr s
          else case EventHandler_handleEvent cb handler event s of
                 Inl e \<Rightarrow> Inl e
               | Inr s1 \<Rightarrow> broadcast cb n handlersEnum' event s1)"

subsection \<open>Dispatch, drain, frames\<close>

definition EventSystem_handleEvent :: "ptr \<Rightarrow> World \<Rightarrow> error + (EventSystemAction \<times> World)" where
  "EventSystem_handleEvent event s =
     (case event_heap s event of
        None \<Rightarrow> Inl InvalidPointer
      | Some e \<Rightarrow>
          if ev_type e = BreakLoopEventTypeId then Inr (EventSystemActionExit, s)
          else if ev_type e = RemoveHandlerEventTypeId then
            (let handler = ev_data e in
             if handler \<noteq> NULL then
               (case EventHandler_decref handler
                       (s\<lparr>handlers := List_remove (handlers s) handler\<rparr>) of
                  Inl x \<Rightarrow> Inl x
                | Inr s1 \<Rightarrow> Inr (EventSystemActionContinue, s1))
             else Inr (EventSystemActionContinue, s))
          else Inr (EventSystemActionContinue, s))"

text \<open>
  The body of the drain loop for one dequeued event: handle it, then either stop the loop
  and enqueue an Exit event, or broadcast it; then free it. The flag is \<open>isRunning\<close>.
\<close>

definition dispatch :: "callbacks \<Rightarrow> nat \<Rightarrow> ptr \<Rightarrow> bool \<Rightarrow> World \<Rightarrow> error + (bool \<times> World)" where
  "dispatch cb n event isRunning s =
     (case EventSystem_handleEvent event s of
        Inl x \<Rightarrow> Inl x
      | Inr (a, s1) \<Rightarrow>
          (case (if a = EventSystemActionExit then
                   (case Event_new NULL ExitEventTypeId NULL NULL s1 of
                      (e, s2) \<Rightarrow> Inr (False, EventSystem_emit e s2))
                 else
                   (case broadcast cb n EventSystem_getHandlers event s1 of
                      Inl x \<Rightarrow> Inl x
                    | Inr s2 \<Rightarrow> Inr (isRunning, s2))) of
             Inl x \<Rightarrow> Inl x
           | Inr (r, s3) \<Rightarrow>
               (case Event_free event s3 of
                  Inl x \<Rightarrow> Inl x
                | Inr s4 \<Rightarrow> Inr (r, s4))))"

text \<open>\<open>while ((event = EventSystem_getNextEvent()) != NULL) { ... }\<close>\<close>

fun drain :: "callbacks \<Rightarrow> nat \<Rightarrow> bool \<Rightarrow> World \<Rightarrow> error + (bool \<times> World)" where
  "drain cb 0 isRunning s = Inl OutOfFuel"
| "drain cb (Suc n) isRunning s =
     (case EventSystem_getNextEvent s of
        (event, s1) \<Rightarrow>
          if event = NULL then Inr (isRunning, s1)
          else case dispatch cb n event isRunning s1 of
                 Inl x \<Rightarrow> Inl x
               | Inr (r, s2) \<Rightarrow> drain cb n r s2)"

text \<open>\<open>const int FPS = 30; const double millisPerFrame = 1000 / FPS;\<close>: the quotient is
  computed on \<open>int\<close> and then converted.\<close>

definition FPS :: int where
  "FPS = 30"

definition millisPerFrame :: real where
  "millisPerFrame = real_of_int (1000 div FPS)"

text \<open>The end of a frame:
  \<open>millis = Clock_diffMillis(Clock_now(), current); if (millis < millisPerFrame) sleepMillis(millisPerFrame - millis);\<close>\<close>

definition pace :: "real \<Rightarrow> World \<Rightarrow> World" where
  "pace current s =
     (case Clock_now s of (t, s1) \<Rightarrow>
        let millis = Clock_diffMillis t current
        in if millis < millisPerFrame then sleepMillis (millisPerFrame - millis) s1 else s1)"

text \<open>
  The outer \<open>while (isRunning)\<close> loop. \<open>ea\<close> is the address of the local
  \<open>elapsedMillis\<close>, the payload of every Update event.
\<close>

fun frames :: "callbacks \<Rightarrow> nat \<Rightarrow> ptr \<Rightarrow> real \<Rightarrow> World \<Rightarrow> error + World" where
  "frames cb 0 ea lastTicks s = Inl OutOfFuel"
| "frames cb (Suc n) ea lastTicks s =
     (case Clock_now s of (current, s1) \<Rightarrow>
        let s2 = s1\<lparr>elapsedMillis := Clock_diffMillis current lastTicks\<rparr> in
        case Event_new NULL UpdateEventTypeId ea NULL s2 of (e, s3) \<Rightarrow>
          (case drain cb n True (EventSystem_emit e s3) of
             Inl x \<Rightarrow> Inl x
           | Inr (isRunning, s4) \<Rightarrow>
               let s5 = pace current s4
               in if isRunning then frames cb n ea current s5 else Inr s5))"

definition EventSystem_loop :: "callbacks \<Rightarrow> nat \<Rightarrow> ptr \<Rightarrow> World \<Rightarrow> error + World" where
  "EventSystem_loop cb n ea s =
     (case Event_new NULL StartEventTypeId NULL NULL s of (e, s1) \<Rightarrow>
        let s2 = (EventSystem_emit e s1)\<lparr>elapsedMillis := 0\<rparr> in
        case Clock_now s2 of (lastTicks, s3) \<Rightarrow> frames cb n ea lastTicks s3)"

subsection \<open>Cleanup\<close>




subsection \<open>Vocabulary of the properties\<close>

text \<open>Calling an operation \<open>k\<close> times in a row, stopping at the first error.\<close>

fun repeat :: "nat \<Rightarrow> (World \<Rightarrow> error + World) \<Rightarrow> World \<Rightarrow> error + World" where
  "repeat 0 f s = Inr s"
| "repeat (Suc k) f s = (case f s of Inl e \<Rightarrow> Inl e | Inr s1 \<Rightarrow> repeat k f s1)"

text \<open>The world in which the live handler \<open>h\<close>, with record \<open>hr\<close>, has reference count \<open>c\<close>.\<close>

definition set_refCount :: "ptr \<Rightarrow> EventHandler \<Rightarrow> int \<Rightarrow> World \<Rightarrow> World" where
  "set_refCount h hr c s = s\<lparr>handler_heap := (handler_heap s)(h \<mapsto> hr\<lparr>h_refCount := c\<rparr>)\<rparr>"

text \<open>
  A world to run examples in: nothing allocated, nothing registered, nothing pending, and
  a clock that advances ten milliseconds between two readings.
\<close>

definition demo_world :: World where
  "demo_world = \<lparr>handlers = [], events = [], handler_heap = Map.empty, event_heap = Map.empty,
     brk = 0, trace = [], clock = (\<lambda>n. 10 * real n), clock_reads = 0, elapsedMillis = 0\<rparr>"

text \<open>What was added to the trace between an earlier world and a later one.\<close>

definition since :: "World \<Rightarrow> World \<Rightarrow> obs list" where
  "since s s' = drop (length (trace s)) (trace s')"

text \<open>The callback invocations of a trace, as (handler, event) pairs.\<close>

fun call_of :: "obs \<Rightarrow> (ptr \<times> ptr) list" where
  "call_of (Invoke h f e ev) = [(h, e)]"
| "call_of _ = []"

definition calls :: "obs list \<Rightarrow> (ptr \<times> ptr) list" where
  "calls tr = concat (map call_of tr)"

text \<open>The same with the type of the event the callback was handed (none if the event
  pointer was not that of a live event).\<close>

fun typed_call_of :: "obs \<Rightarrow> (ptr \<times> int option) list" where
  "typed_call_of (Invoke h f e ev) = [(h, map_option ev_type ev)]"
| "typed_call_of _ = []"

definition typed_calls :: "obs list \<Rightarrow> (ptr \<times> int option) list" where
  "typed_calls tr = concat (map typed_call_of tr)"

text \<open>
  Between two worlds the handler list was only appended to, the trace only grew, and no
  callback was invoked.
\<close>

definition quiet :: "World \<Rightarrow> World \<Rightarrow> bool" where
  "quiet s s' \<longleftrightarrow>
     prefix (handlers s) (handlers s') \<and> prefix (trace s) (trace s') \<and> calls (since s s') = []"

text \<open>
  Client code for the examples. The callback at address 7 only looks at its event; the
  one at address 8 registers handler 2 when it finds itself the only handler.
\<close>

definition demo_cb :: callbacks where
  "demo_cb f self event w =
     (if f = 8 \<and> handlers w = [self] then Call_addHandler 2 Return else Return)"

text \<open>Two live handlers with callback 7 (given as \<open>f\<close> to the first) and one pending
  plain event at address 3, of a client's own type 100.\<close>

definition demo_handlers :: "fnptr \<Rightarrow> World" where
  "demo_handlers f = demo_world\<lparr>brk := 3,
     handler_heap := [1 \<mapsto> \<lparr>h_data = NULL, h_destructor = NULL, h_handler = f, h_refCount = 1\<rparr>,
                      2 \<mapsto> \<lparr>h_data = NULL, h_destructor = NULL, h_handler = 7, h_refCount = 1\<rparr>],
     event_heap := [3 \<mapsto> \<lparr>ev_sender = NULL, ev_type = 100, ev_data = 9, ev_destructor = 6\<rparr>]\<rparr>"

text \<open>Handlers 1 and 2 registered, then \<open>removeHandler\<close> requested for handler 2.\<close>

definition remove_demo :: World where
  "remove_demo =
     EventSystem_removeHandler 2 (EventSystem_addHandler 2 (EventSystem_addHandler 1 (demo_handlers 7)))"

text \<open>
  One handler whose reference count is \<open>rc\<close>, registered, and \<open>removeHandler\<close> requested
  twice for it before the queue is drained. With \<open>rc = 2\<close> this is a handler that its
  creator retained once more before handing it to the system.
\<close>

definition remove_twice :: "int \<Rightarrow> World" where
  "remove_twice rc =
     EventSystem_removeHandler 1 (EventSystem_removeHandler 1 (EventSystem_addHandler 1
       (demo_world\<lparr>brk := 1, handler_heap := [1 \<mapsto>
          \<lparr>h_data = NULL, h_destructor = NULL, h_handler = 7, h_refCount = rc\<rparr>]\<rparr>)))"

text \<open>A world in which the next clock reading is \<open>t\<close>.\<close>

definition demo_frame :: "real \<Rightarrow> World" where
  "demo_frame t = demo_world\<lparr>clock := (\<lambda>n. t)\<rparr>"

text \<open>
  Every registered handler is a live, non-null handler whose callback makes no call to the
  event system, whatever it is handed (a handler that only counts or records).
\<close>

definition observing :: "callbacks \<Rightarrow> World \<Rightarrow> bool" where
  "observing cb s \<longleftrightarrow>
     (\<forall>h\<in>set (handlers s). h \<noteq> NULL \<and>
        (\<exists>hr. handler_heap s h = Some hr \<and> h_handler hr \<noteq> NULL
              \<and> (\<forall>self ev w. cb (h_handler hr) self ev w = Return)))"

text \<open>
  The pending queue holds, in order, live events of the types \<open>ts\<close>, each of them
  allocated once and queued once.
\<close>

definition pending :: "World \<Rightarrow> ptr \<Rightarrow> int \<Rightarrow> bool" where
  "pending s p t \<longleftrightarrow> p \<noteq> NULL \<and> p \<le> brk s \<and> map_option ev_type (event_heap s p) = Some t"

definition typed_queue :: "World \<Rightarrow> int list \<Rightarrow> bool" where
  "typed_queue s ts \<longleftrightarrow> distinct (events s) \<and> list_all2 (pending s) (events s) ts"

text \<open>Events of the types \<open>ts\<close>, one after the other, each handed to the handlers \<open>hs\<close> in order.\<close>

definition deliveries :: "ptr list \<Rightarrow> int list \<Rightarrow> (ptr \<times> int option) list" where
  "deliveries hs ts = concat (map (\<lambda>t. map (\<lambda>h. (h, Some t)) hs) ts)"

text \<open>\<open>EventSystem_emit(Event_new(sender, type, data, dest))\<close>, the way the file itself
  produces every event it emits.\<close>

definition post :: "ptr \<Rightarrow> int \<Rightarrow> ptr \<Rightarrow> fnptr \<Rightarrow> World \<Rightarrow> World" where
  "post sender type data dest s =
     (case Event_new sender type data dest s of (e, s1) \<Rightarrow> EventSystem_emit e s1)"

subsection \<open>The life of an event\<close>













subsection \<open>Callbacks that register handlers\<close>






section \<open>Properties\<close>

subsection \<open>Traces only grow\<close>

lemma since_refl: "since s s = []"
  by (simp add: since_def)

lemma since_append: "trace s' = trace s @ d \<Longrightarrow> since s s' = d"
  by (simp add: since_def)

lemma since_trans:
  "prefix (trace s) (trace s1) \<Longrightarrow> prefix (trace s1) (trace s2) \<Longrightarrow>
   since s s2 = since s s1 @ since s1 s2"
  by (auto simp: since_def prefix_def)

lemma since_prefix: "prefix (trace s) (trace s') \<Longrightarrow> trace s' = trace s @ since s s'"
  by (auto simp: since_def prefix_def)

lemma calls_append: "calls (a @ b) = calls a @ calls b"
  by (simp add: calls_def)

lemma calls_Nil: "calls [] = []"
  by (simp add: calls_def)

subsection \<open>What the primitive operations change\<close>

lemma Event_new_fields:
  "Event_new sender type data dest s = (p, s') \<Longrightarrow>
   handlers s' = handlers s \<and> events s' = events s \<and> trace s' = trace s
   \<and> handler_heap s' = handler_heap s \<and> p = Suc (brk s) \<and> brk s' = Suc (brk s)
   \<and> event_heap s' = (event_heap s)(p \<mapsto>
        \<lparr>ev_sender = sender, ev_type = type, ev_data = data, ev_destructor = dest\<rparr>)"
  by (auto simp: Event_new_def malloc_def)

lemma EventHandler_new_fields:
  "EventHandler_new data dest fn s = Inr (p, s') \<Longrightarrow>
   handlers s' = handlers s \<and> events s' = events s \<and> trace s' = trace s
   \<and> event_heap s' = event_heap s \<and> p = Suc (brk s) \<and> brk s' = Suc (brk s)
   \<and> handler_heap s' = (handler_heap s)(p \<mapsto>
        \<lparr>h_data = data, h_destructor = dest, h_handler = fn, h_refCount = 1\<rparr>)"
  by (auto simp: EventHandler_new_def malloc_def split: if_splits)

lemma incref_fields:
  "EventHandler_incref h s = Inr s' \<Longrightarrow>
   handlers s' = handlers s \<and> events s' = events s \<and> trace s' = trace s
   \<and> event_heap s' = event_heap s \<and> brk s' = brk s"
  by (auto simp: EventHandler_incref_def split: option.splits if_splits)

lemma decref_fields:
  "EventHandler_decref h s = Inr s' \<Longrightarrow>
   handlers s' = handlers s \<and> events s' = events s
   \<and> event_heap s' = event_heap s \<and> brk s' = brk s
   \<and> prefix (trace s) (trace s') \<and> calls (since s s') = []"
  by (auto simp: EventHandler_decref_def emit_obs_def since_def calls_def Let_def
           split: option.splits if_splits)


lemma emit_fields:
  "handlers (EventSystem_emit e s) = handlers s \<and> events (EventSystem_emit e s) = events s @ [e]
   \<and> trace (EventSystem_emit e s) = trace s \<and> handler_heap (EventSystem_emit e s) = handler_heap s
   \<and> event_heap (EventSystem_emit e s) = event_heap s \<and> brk (EventSystem_emit e s) = brk s"
  by (simp add: EventSystem_emit_def Queue_enqueue_def)

lemma raiseEvent_fields:
  "handlers (EventSystem_raiseEvent e s) = handlers s \<and> events (EventSystem_raiseEvent e s) = events s @ [e]
   \<and> trace (EventSystem_raiseEvent e s) = trace s \<and> handler_heap (EventSystem_raiseEvent e s) = handler_heap s
   \<and> event_heap (EventSystem_raiseEvent e s) = event_heap s \<and> brk (EventSystem_raiseEvent e s) = brk s"
  by (simp add: EventSystem_raiseEvent_def Queue_enqueue_def)

lemma addHandler_fields:
  "handlers (EventSystem_addHandler h s) = handlers s @ [h] \<and> events (EventSystem_addHandler h s) = events s
   \<and> trace (EventSystem_addHandler h s) = trace s \<and> handler_heap (EventSystem_addHandler h s) = handler_heap s
   \<and> event_heap (EventSystem_addHandler h s) = event_heap s \<and> brk (EventSystem_addHandler h s) = brk s"
  by (simp add: EventSystem_addHandler_def List_add_def)

lemma removeHandler_fields:
  "handlers (EventSystem_removeHandler h s) = handlers s
   \<and> events (EventSystem_removeHandler h s) = events s @ [Suc (brk s)]
   \<and> trace (EventSystem_removeHandler h s) = trace s
   \<and> handler_heap (EventSystem_removeHandler h s) = handler_heap s
   \<and> event_heap (EventSystem_removeHandler h s) = (event_heap s)(Suc (brk s) \<mapsto>
        \<lparr>ev_sender = NULL, ev_type = RemoveHandlerEventTypeId, ev_data = h, ev_destructor = NULL\<rparr>)
   \<and> brk (EventSystem_removeHandler h s) = Suc (brk s)"
  by (simp add: EventSystem_removeHandler_def Event_new_def malloc_def EventSystem_emit_def Queue_enqueue_def)

lemma exit_fields:
  "handlers (EventSystem_exit s) = handlers s
   \<and> events (EventSystem_exit s) = events s @ [Suc (brk s)]
   \<and> trace (EventSystem_exit s) = trace s
   \<and> handler_heap (EventSystem_exit s) = handler_heap s
   \<and> event_heap (EventSystem_exit s) = (event_heap s)(Suc (brk s) \<mapsto>
        \<lparr>ev_sender = NULL, ev_type = BreakLoopEventTypeId, ev_data = NULL, ev_destructor = NULL\<rparr>)
   \<and> brk (EventSystem_exit s) = Suc (brk s)"
  by (simp add: EventSystem_exit_def Event_new_def malloc_def EventSystem_emit_def Queue_enqueue_def)

subsection \<open>What client code changes\<close>

text \<open>
  A relation between worlds that is reflexive, transitive and holds across every call of
  the public interface holds across every callback.
\<close>

lemma run_script_rule:
  assumes refl: "\<And>s. R s s"
    and trans: "\<And>s s1 s2. R s s1 \<Longrightarrow> R s1 s2 \<Longrightarrow> R s s2"
    and new_event: "\<And>a b c d s p s1. Event_new a b c d s = (p, s1) \<Longrightarrow> R s s1"
    and new_handler: "\<And>a b c s p s1. EventHandler_new a b c s = Inr (p, s1) \<Longrightarrow> R s s1"
    and incref: "\<And>h s s1. EventHandler_incref h s = Inr s1 \<Longrightarrow> R s s1"
    and decref: "\<And>h s s1. EventHandler_decref h s = Inr s1 \<Longrightarrow> R s s1"
    and add: "\<And>h s. R s (EventSystem_addHandler h s)"
    and remove: "\<And>h s. R s (EventSystem_removeHandler h s)"
    and raise: "\<And>e s. R s (EventSystem_raiseEvent e s)"
    and emit: "\<And>e s. R s (EventSystem_emit e s)"
    and exit: "\<And>s. R s (EventSystem_exit s)"
  shows "run_script sc s = Inr s' \<Longrightarrow> R s s'"
proof (induction sc arbitrary: s)
  case Return
  then show ?case by (simp add: refl)
next
  case (Call_Event_new a b c d k)
  obtain p s1 where n: "Event_new a b c d s = (p, s1)" by (cases "Event_new a b c d s")
  with Call_Event_new.prems have "run_script (k p) s1 = Inr s'" by simp
  then have "R s1 s'" by (rule Call_Event_new.IH[OF rangeI])
  with new_event[OF n] show ?case by (rule trans)
next
  case (Call_EventHandler_new a b c k)
  then obtain p s1 where n: "EventHandler_new a b c s = Inr (p, s1)" and r: "run_script (k p) s1 = Inr s'"
    by (auto split: sum.splits)
  from r have "R s1 s'" by (rule Call_EventHandler_new.IH[OF rangeI])
  with new_handler[OF n] show ?case by (rule trans)
next
  case (Call_incref h k)
  then obtain s1 where n: "EventHandler_incref h s = Inr s1" and r: "run_script k s1 = Inr s'"
    by (auto split: sum.splits)
  from incref[OF n] Call_incref.IH[OF r] show ?case by (rule trans)
next
  case (Call_decref h k)
  then obtain s1 where n: "EventHandler_decref h s = Inr s1" and r: "run_script k s1 = Inr s'"
    by (auto split: sum.splits)
  from decref[OF n] Call_decref.IH[OF r] show ?case by (rule trans)
next
  case (Call_addHandler h k)
  then have "R (EventSystem_addHandler h s) s'" by (auto intro: Call_addHandler.IH)
  with add show ?case by (rule trans)
next
  case (Call_removeHandler h k)
  then have "R (EventSystem_removeHandler h s) s'" by (auto intro: Call_removeHandler.IH)
  with remove show ?case by (rule trans)
next
  case (Call_raiseEvent e k)
  then have "R (EventSystem_raiseEvent e s) s'" by (auto intro: Call_raiseEvent.IH)
  with raise show ?case by (rule trans)
next
  case (Call_emit e k)
  then have "R (EventSystem_emit e s) s'" by (auto intro: Call_emit.IH)
  with emit show ?case by (rule trans)
next
  case (Call_exit k)
  then have "R (EventSystem_exit s) s'" by (auto intro: Call_exit.IH)
  with exit show ?case by (rule trans)
qed

lemma quiet_refl: "quiet s s"
  by (simp add: quiet_def since_refl calls_Nil)

lemma quiet_trans: "quiet s s1 \<Longrightarrow> quiet s1 s2 \<Longrightarrow> quiet s s2"
  unfolding quiet_def using since_trans[of s s1 s2] by (auto simp: calls_append)

lemma quiet_same_trace:
  "handlers s' = handlers s @ a \<Longrightarrow> trace s' = trace s \<Longrightarrow> quiet s s'"
  by (simp add: quiet_def since_def calls_Nil)

lemma run_script_quiet: "run_script sc s = Inr s' \<Longrightarrow> quiet s s'"
proof (erule run_script_rule[where R = quiet, rotated -1])
  show "\<And>s. quiet s s" by (rule quiet_refl)
  show "\<And>s s1 s2. quiet s s1 \<Longrightarrow> quiet s1 s2 \<Longrightarrow> quiet s s2" by (rule quiet_trans)
  show "\<And>a b c d s p s1. Event_new a b c d s = (p, s1) \<Longrightarrow> quiet s s1"
    by (rule quiet_same_trace[where a = "[]"]) (simp_all add: Event_new_fields)
  show "\<And>a b c s p s1. EventHandler_new a b c s = Inr (p, s1) \<Longrightarrow> quiet s s1"
    by (rule quiet_same_trace[where a = "[]"]) (simp_all add: EventHandler_new_fields)
  show "\<And>h s s1. EventHandler_incref h s = Inr s1 \<Longrightarrow> quiet s s1"
    by (rule quiet_same_trace[where a = "[]"]) (simp_all add: incref_fields)
  show "\<And>h s s1. EventHandler_decref h s = Inr s1 \<Longrightarrow> quiet s s1"
    by (simp add: quiet_def decref_fields)
  show "\<And>h s. quiet s (EventSystem_addHandler h s)"
    by (rule quiet_same_trace[where a = "[h]" for h]) (simp_all add: addHandler_fields)
  show "\<And>h s. quiet s (EventSystem_removeHandler h s)"
    by (rule quiet_same_trace[where a = "[]"]) (simp_all add: removeHandler_fields)
  show "\<And>e s. quiet s (EventSystem_raiseEvent e s)"
    by (rule quiet_same_trace[where a = "[]"]) (simp_all add: raiseEvent_fields)
  show "\<And>e s. quiet s (EventSystem_emit e s)"
    by (rule quiet_same_trace[where a = "[]"]) (simp_all add: emit_fields)
  show "\<And>s. quiet s (EventSystem_exit s)"
    by (rule quiet_same_trace[where a = "[]"]) (simp_all add: exit_fields)
qed

subsection \<open>The broadcast\<close>

lemma handleEvent_calls:
  assumes "EventHandler_handleEvent cb h ev s = Inr s'"
  shows "prefix (handlers s) (handlers s') \<and> prefix (trace s) (trace s')
         \<and> calls (since s s') = [(h, ev)]"
proof -
  from assms obtain hr where live: "handler_heap s h = Some hr" and fn: "h_handler hr \<noteq> NULL"
    by (auto simp: EventHandler_handleEvent_def split: option.splits if_splits)
  let ?s1 = "emit_obs (Invoke h (h_handler hr) ev (event_heap s ev)) s"
  from assms live fn have run: "run_script (cb (h_handler hr) h ev ?s1) ?s1 = Inr s'"
    by (simp add: EventHandler_handleEvent_def Let_def)
  have q: "quiet ?s1 s'" using run by (rule run_script_quiet)
  have t1: "trace ?s1 = trace s @ [Invoke h (h_handler hr) ev (event_heap s ev)]"
    and h1: "handlers ?s1 = handlers s"
    by (simp_all add: emit_obs_def)
  have p1: "prefix (trace s) (trace ?s1)" by (simp add: t1)
  have c1: "calls (since s ?s1) = [(h, ev)]" by (simp add: since_append[OF t1] calls_def)
  from q have p2: "prefix (trace ?s1) (trace s')" and c2: "calls (since ?s1 s') = []"
    and hp: "prefix (handlers s) (handlers s')"
    by (simp_all add: quiet_def h1)
  from since_trans[OF p1 p2] c1 c2 have "calls (since s s') = [(h, ev)]" by (simp add: calls_append)
  moreover from p1 p2 have "prefix (trace s) (trace s')" by (rule prefix_order.trans)
  ultimately show ?thesis using hp by simp
qed

lemma broadcast_end:
  "length (handlers s) \<le> index en \<Longrightarrow> broadcast cb (Suc n) en ev s = Inr s"
  by (simp add: EventHandlerEnumerator_getNextHandler_def List_count_def)

lemma broadcast_null:
  "index en < length (handlers s) \<Longrightarrow> handlers s ! index en = NULL \<Longrightarrow>
   broadcast cb (Suc n) en ev s = Inr s"
  by (simp add: EventHandlerEnumerator_getNextHandler_def List_count_def List_get_def)

lemma broadcast_next:
  "index en < length (handlers s) \<Longrightarrow> handlers s ! index en \<noteq> NULL \<Longrightarrow>
   broadcast cb (Suc n) en ev s =
     (case EventHandler_handleEvent cb (handlers s ! index en) ev s of
        Inl e \<Rightarrow> Inl e
      | Inr s1 \<Rightarrow> broadcast cb n (en\<lparr>index := Suc (index en)\<rparr>) ev s1)"
  by (simp add: EventHandlerEnumerator_getNextHandler_def List_count_def List_get_def)

lemma broadcast_calls:
  "broadcast cb n en ev s = Inr s' \<Longrightarrow>
   prefix (handlers s) (handlers s') \<and> prefix (trace s) (trace s')
   \<and> calls (since s s') =
       map (\<lambda>h. (h, ev)) (takeWhile (\<lambda>h. h \<noteq> NULL) (drop (index en) (handlers s')))"
proof (induction n arbitrary: en s)
  case 0
  then show ?case by simp
next
  case (Suc n)
  show ?case
  proof (cases "index en < length (handlers s)")
    case False
    then have "broadcast cb (Suc n) en ev s = Inr s" by (intro broadcast_end) simp
    with Suc.prems have "s' = s" by simp
    with False show ?thesis by (simp add: since_refl calls_Nil)
  next
    case True
    let ?h = "handlers s ! index en"
    have dr: "drop (index en) (handlers s) = ?h # drop (Suc (index en)) (handlers s)"
      using True by (simp add: Cons_nth_drop_Suc)
    show ?thesis
    proof (cases "?h = NULL")
      case isnull: True
      with True have "broadcast cb (Suc n) en ev s = Inr s" by (intro broadcast_null)
      with Suc.prems have "s' = s" by simp
      with isnull dr show ?thesis by (simp add: since_refl calls_Nil)
    next
      case nonnull: False
      from broadcast_next[OF True nonnull, of cb n ev] Suc.prems
      obtain s1 where one: "EventHandler_handleEvent cb ?h ev s = Inr s1"
        and rest: "broadcast cb n (en\<lparr>index := Suc (index en)\<rparr>) ev s1 = Inr s'"
        by (auto split: sum.splits)
      from handleEvent_calls[OF one]
      have h1: "prefix (handlers s) (handlers s1)" and t1: "prefix (trace s) (trace s1)"
        and c1: "calls (since s s1) = [(?h, ev)]" by simp_all
      from Suc.IH[OF rest]
      have h2: "prefix (handlers s1) (handlers s')" and t2: "prefix (trace s1) (trace s')"
        and c2: "calls (since s1 s') =
          map (\<lambda>h. (h, ev)) (takeWhile (\<lambda>h. h \<noteq> NULL) (drop (Suc (index en)) (handlers s')))"
        by simp_all
      from h1 h2 have hp: "prefix (handlers s) (handlers s')" by (rule prefix_order.trans)
      then obtain a where a: "handlers s' = handlers s @ a" by (auto simp: prefix_def)
      have "drop (index en) (handlers s') = ?h # drop (Suc (index en)) (handlers s')"
        using True by (simp add: a Cons_nth_drop_Suc nth_append)
      with nonnull have "takeWhile (\<lambda>h. h \<noteq> NULL) (drop (index en) (handlers s')) =
          ?h # takeWhile (\<lambda>h. h \<noteq> NULL) (drop (Suc (index en)) (handlers s'))" by simp
      moreover from since_trans[OF t1 t2] c1 c2
      have "calls (since s s') = (?h, ev) #
          map (\<lambda>h. (h, ev)) (takeWhile (\<lambda>h. h \<noteq> NULL) (drop (Suc (index en)) (handlers s')))"
        by (simp add: calls_append)
      moreover from t1 t2 have "prefix (trace s) (trace s')" by (rule prefix_order.trans)
      ultimately show ?thesis using hp by simp
    qed
  qed
qed

subsection \<open>Reference counts\<close>

lemma set_refCount_same: "handler_heap s h = Some hr \<Longrightarrow> set_refCount h hr (h_refCount hr) s = s"
  by (simp add: set_refCount_def map_upd_triv)

lemma incref_live:
  "handler_heap s h = Some hr \<Longrightarrow> h_refCount hr < INT_MAX \<Longrightarrow>
   EventHandler_incref h s = Inr (set_refCount h hr (h_refCount hr + 1) s)"
  by (simp add: EventHandler_incref_def set_refCount_def)

lemma set_refCount_heap: "handler_heap (set_refCount h hr c s) h = Some (hr\<lparr>h_refCount := c\<rparr>)"
  by (simp add: set_refCount_def)

lemma set_refCount_twice: "set_refCount h (hr\<lparr>h_refCount := c\<rparr>) d (set_refCount h hr c s) = set_refCount h hr d s"
  by (simp add: set_refCount_def)

lemma repeat_incref:
  "handler_heap s h = Some hr \<Longrightarrow> h_refCount hr + int k \<le> INT_MAX \<Longrightarrow>
   repeat k (EventHandler_incref h) s = Inr (set_refCount h hr (h_refCount hr + int k) s)"
proof (induction k arbitrary: s hr)
  case 0
  then show ?case by (simp add: set_refCount_same)
next
  case (Suc k)
  have lt: "h_refCount hr < INT_MAX" using Suc.prems(2) by simp
  let ?s1 = "set_refCount h hr (h_refCount hr + 1) s"
  have step: "EventHandler_incref h s = Inr ?s1" using Suc.prems(1) lt by (rule incref_live)
  have "repeat k (EventHandler_incref h) ?s1 =
        Inr (set_refCount h (hr\<lparr>h_refCount := h_refCount hr + 1\<rparr>) (h_refCount (hr\<lparr>h_refCount := h_refCount hr + 1\<rparr>) + int k) ?s1)"
    using Suc.prems(2) by (intro Suc.IH) (simp_all add: set_refCount_heap)
  then show ?case by (simp add: step set_refCount_twice add.commute add.left_commute)
qed

lemma decref_keep:
  "handler_heap s h = Some hr \<Longrightarrow> 1 < h_refCount hr \<Longrightarrow>
   EventHandler_decref h s = Inr (set_refCount h hr (h_refCount hr - 1) s)"
  by (simp add: EventHandler_decref_def set_refCount_def INT_MIN_def)

lemma decref_last:
  "handler_heap s h = Some hr \<Longrightarrow> h_refCount hr = 1 \<Longrightarrow>
   EventHandler_decref h s =
     Inr (s\<lparr>handler_heap := (handler_heap s)(h := None),
             trace := trace s @ (if h_destructor hr \<noteq> NULL \<and> h_data hr \<noteq> NULL
                                then [HandlerDestructor h (h_destructor hr) (h_data hr)] else [])
                              @ [FreeHandler h]\<rparr>)"
  by (simp add: EventHandler_decref_def emit_obs_def INT_MIN_def)

lemma repeat_decref:
  "handler_heap s h = Some hr \<Longrightarrow> int k < h_refCount hr \<Longrightarrow>
   repeat k (EventHandler_decref h) s = Inr (set_refCount h hr (h_refCount hr - int k) s)"
proof (induction k arbitrary: s hr)
  case 0
  then show ?case by (simp add: set_refCount_same)
next
  case (Suc k)
  have lt: "1 < h_refCount hr" using Suc.prems(2) by simp
  let ?s1 = "set_refCount h hr (h_refCount hr - 1) s"
  have step: "EventHandler_decref h s = Inr ?s1" using Suc.prems(1) lt by (rule decref_keep)
  have "repeat k (EventHandler_decref h) ?s1 =
        Inr (set_refCount h (hr\<lparr>h_refCount := h_refCount hr - 1\<rparr>) (h_refCount (hr\<lparr>h_refCount := h_refCount hr - 1\<rparr>) - int k) ?s1)"
    using Suc.prems(2) by (intro Suc.IH) (simp_all add: set_refCount_heap)
  then show ?case by (simp add: step set_refCount_twice algebra_simps)
qed

lemma repeat_snoc:
  "repeat (Suc k) f s = (case repeat k f s of Inl e \<Rightarrow> Inl e | Inr s1 \<Rightarrow> f s1)"
proof (induction k arbitrary: s)
  case 0
  show ?case by (simp split: sum.splits)
next
  case (Suc k)
  show ?case
  proof (cases "f s")
    case (Inl e)
    then show ?thesis by simp
  next
    case (Inr s1)
    have "repeat (Suc (Suc k)) f s = repeat (Suc k) f s1" using Inr by simp
    also have "\<dots> = (case repeat k f s1 of Inl e \<Rightarrow> Inl e | Inr s2 \<Rightarrow> f s2)" by (rule Suc.IH)
    also have "\<dots> = (case repeat (Suc k) f s of Inl e \<Rightarrow> Inl e | Inr s2 \<Rightarrow> f s2)" using Inr by simp
    finally show ?thesis .
  qed
qed

text \<open>
  C7. A handler is created with reference count 1 and retained until the count is \<open>N\<close>.
  Releasing it fewer than \<open>N\<close> times calls no destructor and frees nothing: the trace is
  unchanged and the record is still live. The \<open>N\<close>-th release calls the payload
  destructor once, if the payload is not null, and then frees the record once.
\<close>

theorem handler_release_exactly_once:
  assumes new: "EventHandler_new data dest fn s0 = Inr (h, s1)"
    and N: "1 \<le> N" "int N \<le> INT_MAX"
  shows "\<exists>s2. repeat (N - 1) (EventHandler_incref h) s1 = Inr s2
           \<and> map_option h_refCount (handler_heap s2 h) = Some (int N)
           \<and> (\<forall>k<N. \<exists>s3. repeat k (EventHandler_decref h) s2 = Inr s3
                    \<and> trace s3 = trace s2 \<and> handler_heap s3 h \<noteq> None)
           \<and> (\<exists>s4. repeat N (EventHandler_decref h) s2 = Inr s4
                    \<and> trace s4 = trace s2 @ (if data \<noteq> NULL then [HandlerDestructor h dest data] else [])
                                           @ [FreeHandler h]
                    \<and> handler_heap s4 h = None)"
proof -
  let ?hr = "\<lparr>h_data = data, h_destructor = dest, h_handler = fn, h_refCount = 1\<rparr>"
  from new have ok: "data = NULL \<or> dest \<noteq> NULL"
    by (auto simp: EventHandler_new_def split: if_splits)
  from new have live1: "handler_heap s1 h = Some ?hr"
    by (auto simp: EventHandler_new_def malloc_def split: if_splits)
  let ?s2 = "set_refCount h ?hr (int N) s1"
  have "h_refCount ?hr + int (N - 1) \<le> INT_MAX" using N by simp
  with live1 have "repeat (N - 1) (EventHandler_incref h) s1 = Inr (set_refCount h ?hr (h_refCount ?hr + int (N - 1)) s1)"
    by (rule repeat_incref)
  moreover have "h_refCount ?hr + int (N - 1) = int N" using N by simp
  ultimately have up: "repeat (N - 1) (EventHandler_incref h) s1 = Inr ?s2" by simp
  let ?hN = "?hr\<lparr>h_refCount := int N\<rparr>"
  have live2: "handler_heap ?s2 h = Some ?hN" by (rule set_refCount_heap)
  have down: "repeat k (EventHandler_decref h) ?s2 = Inr (set_refCount h ?hN (int N - int k) ?s2)" if "k < N" for k
  proof -
    have "int k < h_refCount ?hN" using that by simp
    with live2 have "repeat k (EventHandler_decref h) ?s2 = Inr (set_refCount h ?hN (h_refCount ?hN - int k) ?s2)"
      by (rule repeat_decref)
    then show ?thesis by simp
  qed
  have few: "\<forall>k<N. \<exists>s3. repeat k (EventHandler_decref h) ?s2 = Inr s3
                \<and> trace s3 = trace ?s2 \<and> handler_heap s3 h \<noteq> None"
    using down by (simp add: set_refCount_def)
  obtain m where m: "N = Suc m" using N(1) by (cases N) auto
  let ?s3 = "set_refCount h ?hN (int N - int m) ?s2"
  have pre: "repeat m (EventHandler_decref h) ?s2 = Inr ?s3" using down[of m] m by simp
  have live3: "handler_heap ?s3 h = Some (?hN\<lparr>h_refCount := int N - int m\<rparr>)" by (rule set_refCount_heap)
  have one: "h_refCount (?hN\<lparr>h_refCount := int N - int m\<rparr>) = 1" using m by simp
  have "repeat N (EventHandler_decref h) ?s2 = EventHandler_decref h ?s3"
    unfolding m repeat_snoc using pre m by simp
  also note decref_last[OF live3 one]
  finally have last: "repeat N (EventHandler_decref h) ?s2 =
     Inr (?s3\<lparr>handler_heap := (handler_heap ?s3)(h := None),
             trace := trace ?s3 @ (if dest \<noteq> NULL \<and> data \<noteq> NULL
                                then [HandlerDestructor h dest data] else [])
                              @ [FreeHandler h]\<rparr>)" by simp
  have all: "\<exists>s4. repeat N (EventHandler_decref h) ?s2 = Inr s4
                    \<and> trace s4 = trace ?s2 @ (if data \<noteq> NULL then [HandlerDestructor h dest data] else [])
                                           @ [FreeHandler h]
                    \<and> handler_heap s4 h = None"
    unfolding last using ok by (auto simp: set_refCount_def)
  have rc: "map_option h_refCount (handler_heap ?s2 h) = Some (int N)" by (simp add: live2)
  from up rc few all show ?thesis by blast
qed

theorem handler_release_exactly_once_witness:
  "EventHandler_new 5 6 7 demo_world =
     Inr (1, demo_world\<lparr>brk := 1, handler_heap := [1 \<mapsto>
        \<lparr>h_data = 5, h_destructor = 6, h_handler = 7, h_refCount = 1\<rparr>]\<rparr>)
   \<and> (\<exists>s2. repeat (3 - 1) (EventHandler_incref 1)
              (demo_world\<lparr>brk := 1, handler_heap := [1 \<mapsto>
                 \<lparr>h_data = 5, h_destructor = 6, h_handler = 7, h_refCount = 1\<rparr>]\<rparr>) = Inr s2
           \<and> map_option h_refCount (handler_heap s2 1) = Some 3
           \<and> (\<forall>k<3. \<exists>s3. repeat k (EventHandler_decref 1) s2 = Inr s3
                    \<and> trace s3 = trace s2 \<and> handler_heap s3 1 \<noteq> None)
           \<and> (\<exists>s4. repeat 3 (EventHandler_decref 1) s2 = Inr s4
                    \<and> trace s4 = trace s2 @ [HandlerDestructor 1 6 5, FreeHandler 1]
                    \<and> handler_heap s4 1 = None))"
proof -
  have new: "EventHandler_new 5 6 7 demo_world =
     Inr (1, demo_world\<lparr>brk := 1, handler_heap := [1 \<mapsto>
        \<lparr>h_data = 5, h_destructor = 6, h_handler = 7, h_refCount = 1\<rparr>]\<rparr>)"
    by (simp add: EventHandler_new_def malloc_def demo_world_def)
  have "1 \<le> (3::nat)" "int 3 \<le> INT_MAX" by (simp_all add: INT_MAX_def)
  from handler_release_exactly_once[OF new this] new show ?thesis by simp
qed

subsection \<open>Emission\<close>

text \<open>
  C6. \<open>emit\<close> and \<open>raiseEvent\<close> are the same function of the event and the world, and
  what they do is put the event at the tail of the pending queue, leaving the rest of the
  world as it was.
\<close>

theorem emit_is_raiseEvent:
  "EventSystem_emit = EventSystem_raiseEvent
   \<and> EventSystem_emit e s = s\<lparr>events := events s @ [e]\<rparr>
   \<and> EventSystem_raiseEvent e s = s\<lparr>events := events s @ [e]\<rparr>"
  by (auto simp: fun_eq_iff EventSystem_emit_def EventSystem_raiseEvent_def Queue_enqueue_def)

subsection \<open>Dispatch order\<close>



lemma Inr_projr: "\<not> isl x \<Longrightarrow> x = Inr (projr x)"
  by (cases x) simp_all

subsection \<open>Handlers that register handlers\<close>













subsection \<open>One dequeued event\<close>

lemma sys_handleEvent_break:
  "event_heap s ev = Some e \<Longrightarrow> ev_type e = BreakLoopEventTypeId \<Longrightarrow>
   EventSystem_handleEvent ev s = Inr (EventSystemActionExit, s)"
  by (simp add: EventSystem_handleEvent_def)


lemma sys_handleEvent_plain:
  "event_heap s ev = Some e \<Longrightarrow> ev_type e \<noteq> BreakLoopEventTypeId \<Longrightarrow>
   ev_type e \<noteq> RemoveHandlerEventTypeId \<or> ev_data e = NULL \<Longrightarrow>
   EventSystem_handleEvent ev s = Inr (EventSystemActionContinue, s)"
  by (auto simp: EventSystem_handleEvent_def)

lemma dispatch_exit:
  "EventSystem_handleEvent ev s = Inr (EventSystemActionExit, s1) \<Longrightarrow>
   dispatch cb n ev r s =
     (case Event_free ev (EventSystem_emit (fst (Event_new NULL ExitEventTypeId NULL NULL s1))
                           (snd (Event_new NULL ExitEventTypeId NULL NULL s1))) of
        Inl x \<Rightarrow> Inl x
      | Inr s4 \<Rightarrow> Inr (False, s4))"
  by (simp add: dispatch_def split_beta split: sum.splits)

lemma dispatch_continue:
  "EventSystem_handleEvent ev s = Inr (EventSystemActionContinue, s1) \<Longrightarrow>
   dispatch cb n ev r s =
     (case broadcast cb n EventSystem_getHandlers ev s1 of
        Inl x \<Rightarrow> Inl x
      | Inr s2 \<Rightarrow> (case Event_free ev s2 of Inl x \<Rightarrow> Inl x | Inr s4 \<Rightarrow> Inr (r, s4)))"
  by (simp add: dispatch_def split: sum.splits)

text \<open>
  C1. A remove-handler event is not consumed inside the system. With handlers 1 and 2
  registered and the removal of handler 2 requested, the drain takes handler 2 out of the
  list and releases it, which frees it, and then hands the remove-handler event, whose
  payload is the pointer to the handler just freed, to the callback of handler 1, before
  the event is destroyed. The break-loop event, the other internal event, is consumed:
  after \<open>exit\<close> in place of \<open>removeHandler\<close> the callbacks see the Exit event only.
\<close>

theorem remove_handler_event_reaches_callback:
  "\<not> isl (drain demo_cb 3 True remove_demo)
   \<and> trace (snd (projr (drain demo_cb 3 True remove_demo))) =
       [FreeHandler 2,
        Invoke 1 7 4 (Some \<lparr>ev_sender = NULL, ev_type = RemoveHandlerEventTypeId, ev_data = 2,
                              ev_destructor = NULL\<rparr>),
        FreeEvent 4]
   \<and> typed_calls (trace (snd (projr (drain demo_cb 3 True remove_demo)))) =
       [(1, Some RemoveHandlerEventTypeId)]
   \<and> handler_heap (snd (projr (drain demo_cb 3 True remove_demo))) 2 = None
   \<and> \<not> isl (drain demo_cb 5 True (EventSystem_exit (fold EventSystem_addHandler [1, 2] (demo_handlers 7))))
   \<and> typed_calls (trace (snd (projr (drain demo_cb 5 True
          (EventSystem_exit (fold EventSystem_addHandler [1, 2] (demo_handlers 7))))))) =
       [(1, Some ExitEventTypeId), (2, Some ExitEventTypeId)]"
  by code_simp

text \<open>
  C2. The second of two removal requests for the same handler releases a reference again.
  A handler with reference count 2 (its creator kept a reference of its own) is registered
  and its removal requested twice: handling the first request takes it out of the list and
  leaves the count at 1, handling the second finds it absent from the list and still
  decrements, so the handler is freed under its creator. With reference count 1 the second
  request decrements a record that is already freed.
\<close>

theorem second_removal_request_releases_again:
  "\<not> isl (drain demo_cb 3 True (remove_twice 2))
   \<and> trace (snd (projr (drain demo_cb 3 True (remove_twice 2)))) = [FreeEvent 2, FreeHandler 1, FreeEvent 3]
   \<and> handler_heap (snd (projr (drain demo_cb 3 True (remove_twice 2)))) 1 = None
   \<and> map_option h_refCount
        (handler_heap (snd (projr (dispatch demo_cb 2 2 True (snd (EventSystem_getNextEvent (remove_twice 2)))))) 1)
       = Some 1
   \<and> handlers (snd (projr (dispatch demo_cb 2 2 True (snd (EventSystem_getNextEvent (remove_twice 2)))))) = []
   \<and> isl (drain demo_cb 3 True (remove_twice 1))
   \<and> projl (drain demo_cb 3 True (remove_twice 1)) = InvalidPointer"
  by code_simp

subsection \<open>Frame pacing\<close>

text \<open>
  C5. The frame budget is the integer quotient of 1000 by 30 converted to \<open>double\<close>: 33
  milliseconds, not 1000/30. A frame that took 10 ms is followed by a sleep request of
  23 ms; a frame that took 33.3 ms, which is under 1000/30 ms, is followed by none; a frame
  that took 40 ms is followed by none.
\<close>

theorem frame_budget_is_integer_quotient:
  "millisPerFrame = 33
   \<and> millisPerFrame \<noteq> 1000 / 30
   \<and> trace (pace current s) = trace s @
        (if clock s (clock_reads s) - current < 33
         then [Sleep (33 - (clock s (clock_reads s) - current))] else [])
   \<and> trace (pace 0 (demo_frame 10)) = [Sleep 23]
   \<and> Sleep 23 \<noteq> Sleep (1000 / 30 - 10)
   \<and> trace (pace 0 (demo_frame (333 / 10))) = []
   \<and> (333 / 10 :: real) < 1000 / 30
   \<and> trace (pace 0 (demo_frame 40)) = []"
  by (simp add: millisPerFrame_def FPS_def pace_def Clock_now_def Clock_diffMillis_def
        sleepMillis_def emit_obs_def demo_frame_def demo_world_def)

subsection \<open>Handlers that only observe\<close>

lemma typed_calls_append: "typed_calls (a @ b) = typed_calls a @ typed_calls b"
  by (simp add: typed_calls_def)

lemma typed_calls_invokes:
  "typed_calls (map (\<lambda>h. Invoke h (f h) ev (Some e)) hs) = map (\<lambda>h. (h, Some (ev_type e))) hs"
  by (induction hs) (simp_all add: typed_calls_def)

lemma deliveries_Cons: "deliveries hs (t # ts) = map (\<lambda>h. (h, Some t)) hs @ deliveries hs ts"
  by (simp add: deliveries_def)

lemma deliveries_append: "deliveries hs (ts @ us) = deliveries hs ts @ deliveries hs us"
  by (simp add: deliveries_def)

lemma observing_cong:
  "observing cb s \<Longrightarrow> handlers s' = handlers s \<Longrightarrow> handler_heap s' = handler_heap s \<Longrightarrow> observing cb s'"
  by (simp add: observing_def)

lemma handleEvent_observing:
  assumes "handler_heap s h = Some hr" "h_handler hr \<noteq> NULL"
    and "\<forall>self ev w. cb (h_handler hr) self ev w = Return"
  shows "EventHandler_handleEvent cb h ev s = Inr (emit_obs (Invoke h (h_handler hr) ev (event_heap s ev)) s)"
  using assms by (simp add: EventHandler_handleEvent_def Let_def)

lemma broadcast_observing:
  "observing cb s \<Longrightarrow> length (handlers s) - index en < n \<Longrightarrow>
   broadcast cb n en ev s =
     Inr (s\<lparr>trace := trace s @
            map (\<lambda>h. Invoke h (h_handler (the (handler_heap s h))) ev (event_heap s ev))
                (drop (index en) (handlers s))\<rparr>)"
proof (induction n arbitrary: en s)
  case 0
  then show ?case by simp
next
  case (Suc n)
  show ?case
  proof (cases "index en < length (handlers s)")
    case False
    then have "broadcast cb (Suc n) en ev s = Inr s" by (intro broadcast_end) simp
    with False show ?thesis by simp
  next
    case True
    let ?h = "handlers s ! index en"
    from True have mem: "?h \<in> set (handlers s)" by simp
    with Suc.prems(1) obtain hr where nz: "?h \<noteq> NULL" and live: "handler_heap s ?h = Some hr"
      and fn: "h_handler hr \<noteq> NULL" and ret: "\<forall>self ev w. cb (h_handler hr) self ev w = Return"
      unfolding observing_def by blast
    let ?s1 = "emit_obs (Invoke ?h (h_handler hr) ev (event_heap s ev)) s"
    have one: "EventHandler_handleEvent cb ?h ev s = Inr ?s1"
      using live fn ret by (rule handleEvent_observing)
    have p1: "observing cb ?s1" using Suc.prems(1) by (rule observing_cong) (simp_all add: emit_obs_def)
    have "length (handlers ?s1) - index (en\<lparr>index := Suc (index en)\<rparr>) < n"
      using Suc.prems(2) True by (simp add: emit_obs_def)
    from Suc.IH[OF p1 this]
    have rest: "broadcast cb n (en\<lparr>index := Suc (index en)\<rparr>) ev ?s1 =
      Inr (?s1\<lparr>trace := trace ?s1 @
            map (\<lambda>h. Invoke h (h_handler (the (handler_heap s h))) ev (event_heap s ev))
                (drop (Suc (index en)) (handlers s))\<rparr>)"
      by (simp add: emit_obs_def)
    have dr: "drop (index en) (handlers s) = ?h # drop (Suc (index en)) (handlers s)"
      using True by (simp add: Cons_nth_drop_Suc)
    show ?thesis
      unfolding broadcast_next[OF True nz] one dr using rest live
      by (simp add: emit_obs_def)
  qed
qed

lemma Event_free_live:
  "event_heap s ev = Some e \<Longrightarrow>
   Event_free ev s =
     Inr (s\<lparr>event_heap := (event_heap s)(ev := None),
            trace := trace s @ (if ev_destructor e \<noteq> NULL \<and> ev_data e \<noteq> NULL
                                then [EventDestructor ev (ev_destructor e) (ev_data e)] else [])
                             @ [FreeEvent ev]\<rparr>)"
  by (simp add: Event_free_def emit_obs_def Let_def)

lemma dispatch_plain:
  assumes pas: "observing cb s" and live: "event_heap s ev = Some e"
    and plain: "ev_type e \<noteq> BreakLoopEventTypeId" "ev_type e \<noteq> RemoveHandlerEventTypeId"
    and fuel: "length (handlers s) < n"
  shows "dispatch cb n ev r s =
     Inr (r, s\<lparr>event_heap := (event_heap s)(ev := None),
              trace := trace s @
                map (\<lambda>h. Invoke h (h_handler (the (handler_heap s h))) ev (Some e)) (handlers s)
                @ (if ev_destructor e \<noteq> NULL \<and> ev_data e \<noteq> NULL
                   then [EventDestructor ev (ev_destructor e) (ev_data e)] else [])
                @ [FreeEvent ev]\<rparr>)"
proof -
  have h: "EventSystem_handleEvent ev s = Inr (EventSystemActionContinue, s)"
    using sys_handleEvent_plain[OF live plain(1)] plain(2) by simp
  let ?s2 = "s\<lparr>trace := trace s @
            map (\<lambda>h. Invoke h (h_handler (the (handler_heap s h))) ev (Some e)) (handlers s)\<rparr>"
  have bc: "broadcast cb n EventSystem_getHandlers ev s = Inr ?s2"
    using broadcast_observing[OF pas, of EventSystem_getHandlers n ev] fuel live
    by (simp add: EventSystem_getHandlers_def EventHandlerEnumerator_new_def)
  have "event_heap ?s2 ev = Some e" using live by simp
  from Event_free_live[OF this] show ?thesis
    unfolding dispatch_continue[OF h] bc by simp
qed

lemma dispatch_break:
  assumes live: "event_heap s ev = Some e" and brk: "ev_type e = BreakLoopEventTypeId"
    and old: "ev \<le> brk s"
  shows "dispatch cb n ev r s =
     Inr (False, s\<lparr>brk := Suc (brk s), events := events s @ [Suc (brk s)],
              event_heap := ((event_heap s)(Suc (brk s) \<mapsto>
                  \<lparr>ev_sender = NULL, ev_type = ExitEventTypeId, ev_data = NULL, ev_destructor = NULL\<rparr>))
                  (ev := None),
              trace := trace s @ (if ev_destructor e \<noteq> NULL \<and> ev_data e \<noteq> NULL
                                  then [EventDestructor ev (ev_destructor e) (ev_data e)] else [])
                               @ [FreeEvent ev]\<rparr>)"
proof -
  have h: "EventSystem_handleEvent ev s = Inr (EventSystemActionExit, s)"
    using live brk by (rule sys_handleEvent_break)
  let ?s2 = "EventSystem_emit (fst (Event_new NULL ExitEventTypeId NULL NULL s))
               (snd (Event_new NULL ExitEventTypeId NULL NULL s))"
  have s2: "?s2 = s\<lparr>brk := Suc (brk s), events := events s @ [Suc (brk s)],
              event_heap := (event_heap s)(Suc (brk s) \<mapsto>
                  \<lparr>ev_sender = NULL, ev_type = ExitEventTypeId, ev_data = NULL, ev_destructor = NULL\<rparr>)\<rparr>"
    by (simp add: Event_new_def malloc_def EventSystem_emit_def Queue_enqueue_def)
  have "event_heap ?s2 ev = Some e" unfolding s2 using live old by simp
  from Event_free_live[OF this] show ?thesis
    unfolding dispatch_exit[OF h] by (simp add: s2)
qed

lemma drain_empty: "events s = [] \<Longrightarrow> drain cb (Suc n) r s = Inr (r, s)"
  by (simp add: EventSystem_getNextEvent_def Queue_size_def)

lemma drain_next:
  "events s = p # q \<Longrightarrow> p \<noteq> NULL \<Longrightarrow>
   drain cb (Suc n) r s =
     (case dispatch cb n p r (s\<lparr>events := q\<rparr>) of
        Inl x \<Rightarrow> Inl x
      | Inr (r', s2) \<Rightarrow> drain cb n r' s2)"
  by (simp add: EventSystem_getNextEvent_def Queue_size_def Queue_dequeue_def)


lemma typed_queue_Nil: "typed_queue s [] \<Longrightarrow> events s = []"
  by (simp add: typed_queue_def)

lemma typed_queue_Cons:
  assumes "typed_queue s (t # ts)"
  obtains p q e where "events s = p # q" "p \<noteq> NULL" "p \<le> brk s" "event_heap s p = Some e"
    "ev_type e = t" "p \<notin> set q" "distinct q" "list_all2 (pending s) q ts"
  using assms by (auto simp: typed_queue_def list_all2_Cons2 pending_def)

lemma pending_rest:
  assumes all: "list_all2 (pending s) q ts"
    and heap: "\<And>x. x \<in> set q \<Longrightarrow> event_heap s' x = event_heap s x"
    and brk: "brk s \<le> brk s'"
  shows "list_all2 (pending s') q ts"
  using all
proof (rule list.rel_mono_strong)
  fix x t assume "x \<in> set q" "pending s x t"
  with heap[of x] brk show "pending s' x t" by (simp add: pending_def)
qed

lemma pending_bound: "list_all2 (pending s) q ts \<Longrightarrow> x \<in> set q \<Longrightarrow> x \<le> brk s"
  by (auto simp: list_all2_conv_all_nth in_set_conv_nth pending_def)

lemma Exit_not_internal:
  "ExitEventTypeId \<noteq> BreakLoopEventTypeId" "ExitEventTypeId \<noteq> RemoveHandlerEventTypeId"
  "StartEventTypeId \<noteq> BreakLoopEventTypeId" "StartEventTypeId \<noteq> RemoveHandlerEventTypeId"
  "UpdateEventTypeId \<noteq> BreakLoopEventTypeId" "UpdateEventTypeId \<noteq> RemoveHandlerEventTypeId"
  by (simp_all add: ExitEventTypeId_def BreakLoopEventTypeId_def RemoveHandlerEventTypeId_def
        StartEventTypeId_def UpdateEventTypeId_def)

lemma drain_observing:
  "observing cb s \<Longrightarrow> typed_queue s ts \<Longrightarrow> RemoveHandlerEventTypeId \<notin> set ts \<Longrightarrow>
   length ts + count_list ts BreakLoopEventTypeId + length (handlers s) < n \<Longrightarrow>
   \<exists>s'. drain cb n r s = Inr (r \<and> BreakLoopEventTypeId \<notin> set ts, s')
      \<and> events s' = [] \<and> handlers s' = handlers s \<and> handler_heap s' = handler_heap s
      \<and> clock s' = clock s \<and> clock_reads s' = clock_reads s
      \<and> typed_calls (trace s') = typed_calls (trace s) @
           deliveries (handlers s)
             (filter (\<lambda>t. t \<noteq> BreakLoopEventTypeId) ts
              @ replicate (count_list ts BreakLoopEventTypeId) ExitEventTypeId)"
proof (induction n arbitrary: s ts r)
  case 0
  then show ?case by simp
next
  case (Suc n)
  show ?case
  proof (cases ts)
    case Nil
    with Suc.prems(2) have e0: "events s = []" by (simp add: typed_queue_Nil)
    then have "drain cb (Suc n) r s = Inr (r, s)" by (rule drain_empty)
    then show ?thesis using Nil e0 by (simp add: deliveries_def del: drain.simps)
  next
    case (Cons t ts')
    from Suc.prems(2)[unfolded Cons] obtain p q e where
      ev: "events s = p # q" and nz: "p \<noteq> NULL" and old: "p \<le> brk s"
      and live: "event_heap s p = Some e" and type: "ev_type e = t"
      and fresh: "p \<notin> set q" and dq: "distinct q" and rest: "list_all2 (pending s) q ts'"
      by (rule typed_queue_Cons)
    let ?s0 = "s\<lparr>events := q\<rparr>"
    have step: "drain cb (Suc n) r s =
        (case dispatch cb n p r ?s0 of Inl x \<Rightarrow> Inl x | Inr (r', s2) \<Rightarrow> drain cb n r' s2)"
      using ev nz by (rule drain_next)
    have live0: "event_heap ?s0 p = Some e" using live by simp
    have obs0: "observing cb ?s0" using Suc.prems(1) by (rule observing_cong) simp_all
    show ?thesis
    proof (cases "t = BreakLoopEventTypeId")
      case True
      let ?s2 = "?s0\<lparr>brk := Suc (brk ?s0), events := events ?s0 @ [Suc (brk ?s0)],
              event_heap := ((event_heap ?s0)(Suc (brk ?s0) \<mapsto>
                  \<lparr>ev_sender = NULL, ev_type = ExitEventTypeId, ev_data = NULL, ev_destructor = NULL\<rparr>))
                  (p := None),
              trace := trace ?s0 @ (if ev_destructor e \<noteq> NULL \<and> ev_data e \<noteq> NULL
                                  then [EventDestructor p (ev_destructor e) (ev_data e)] else [])
                               @ [FreeEvent p]\<rparr>"
      have d: "dispatch cb n p r ?s0 = Inr (False, ?s2)"
        using live0 by (rule dispatch_break) (use type True old in simp_all)
      have obs2: "observing cb ?s2" using Suc.prems(1) by (rule observing_cong) simp_all
      have bound: "\<And>x. x \<in> set q \<Longrightarrow> x \<le> brk s" using rest by (rule pending_bound)
      have "list_all2 (pending ?s2) q ts'"
        using rest
      proof (rule pending_rest)
        fix x assume "x \<in> set q"
        with bound[of x] fresh show "event_heap ?s2 x = event_heap s x" by auto
      qed simp
      moreover have "pending ?s2 (Suc (brk s)) ExitEventTypeId"
        using old by (auto simp: pending_def)
      ultimately have "list_all2 (pending ?s2) (q @ [Suc (brk s)]) (ts' @ [ExitEventTypeId])"
        by (simp add: list_all2_appendI)
      moreover have "Suc (brk s) \<notin> set q" using bound by fastforce
      ultimately have tq2: "typed_queue ?s2 (ts' @ [ExitEventTypeId])"
        using dq by (simp add: typed_queue_def)
      have nr2: "RemoveHandlerEventTypeId \<notin> set (ts' @ [ExitEventTypeId])"
        using Suc.prems(3) Cons Exit_not_internal by auto
      have fuel2: "length (ts' @ [ExitEventTypeId]) + count_list (ts' @ [ExitEventTypeId]) BreakLoopEventTypeId
                     + length (handlers ?s2) < n"
        using Suc.prems(4) Cons True Exit_not_internal by simp
      from Suc.IH[OF obs2 tq2 nr2 fuel2, of False] obtain s' where
        run: "drain cb n False ?s2 = Inr (False, s')" and e': "events s' = []"
        and h': "handlers s' = handlers ?s2" and hh': "handler_heap s' = handler_heap ?s2"
        and c': "clock s' = clock ?s2" "clock_reads s' = clock_reads ?s2"
        and t': "typed_calls (trace s') = typed_calls (trace ?s2) @
           deliveries (handlers ?s2)
             (filter (\<lambda>t. t \<noteq> BreakLoopEventTypeId) (ts' @ [ExitEventTypeId])
              @ replicate (count_list (ts' @ [ExitEventTypeId]) BreakLoopEventTypeId) ExitEventTypeId)"
        by auto
      have tr2: "typed_calls (trace ?s2) = typed_calls (trace s)"
        by (simp add: typed_calls_def)
      have "drain cb (Suc n) r s = Inr (r \<and> BreakLoopEventTypeId \<notin> set ts, s')"
        unfolding step d using run Cons True by simp
      moreover have "typed_calls (trace s') = typed_calls (trace s) @
           deliveries (handlers s)
             (filter (\<lambda>t. t \<noteq> BreakLoopEventTypeId) ts
              @ replicate (count_list ts BreakLoopEventTypeId) ExitEventTypeId)"
        unfolding t' tr2 using Cons True Exit_not_internal
        by (simp add: replicate_append_same)
      ultimately show ?thesis using e' h' hh' c' by simp
    next
      case False
      let ?s2 = "?s0\<lparr>event_heap := (event_heap ?s0)(p := None),
              trace := trace ?s0 @
                map (\<lambda>h. Invoke h (h_handler (the (handler_heap ?s0 h))) p (Some e)) (handlers ?s0)
                @ (if ev_destructor e \<noteq> NULL \<and> ev_data e \<noteq> NULL
                   then [EventDestructor p (ev_destructor e) (ev_data e)] else [])
                @ [FreeEvent p]\<rparr>"
      have notrm: "t \<noteq> RemoveHandlerEventTypeId" using Suc.prems(3) Cons by auto
      have d: "dispatch cb n p r ?s0 = Inr (r, ?s2)"
        using obs0 live0 by (rule dispatch_plain) (use type False notrm Suc.prems(4) Cons in simp_all)
      have obs2: "observing cb ?s2" using Suc.prems(1) by (rule observing_cong) simp_all
      have "list_all2 (pending ?s2) q ts'"
        using rest
      proof (rule pending_rest)
        fix x assume "x \<in> set q"
        with fresh show "event_heap ?s2 x = event_heap s x" by auto
      qed simp
      then have tq2: "typed_queue ?s2 ts'" using dq by (simp add: typed_queue_def)
      have nr2: "RemoveHandlerEventTypeId \<notin> set ts'" using Suc.prems(3) Cons by auto
      have fuel2: "length ts' + count_list ts' BreakLoopEventTypeId + length (handlers ?s2) < n"
        using Suc.prems(4) Cons False by simp
      from Suc.IH[OF obs2 tq2 nr2 fuel2, of r] obtain s' where
        run: "drain cb n r ?s2 = Inr (r \<and> BreakLoopEventTypeId \<notin> set ts', s')" and e': "events s' = []"
        and h': "handlers s' = handlers ?s2" and hh': "handler_heap s' = handler_heap ?s2"
        and c': "clock s' = clock ?s2" "clock_reads s' = clock_reads ?s2"
        and t': "typed_calls (trace s') = typed_calls (trace ?s2) @
           deliveries (handlers ?s2)
             (filter (\<lambda>t. t \<noteq> BreakLoopEventTypeId) ts'
              @ replicate (count_list ts' BreakLoopEventTypeId) ExitEventTypeId)"
        by auto
      have tr2: "typed_calls (trace ?s2) = typed_calls (trace s) @ map (\<lambda>h. (h, Some t)) (handlers s)"
        using type by (simp add: typed_calls_append typed_calls_invokes) (simp add: typed_calls_def)
      have "drain cb (Suc n) r s = Inr (r \<and> BreakLoopEventTypeId \<notin> set ts, s')"
        unfolding step d using run Cons False by simp
      moreover have "typed_calls (trace s') = typed_calls (trace s) @
           deliveries (handlers s)
             (filter (\<lambda>t. t \<noteq> BreakLoopEventTypeId) ts
              @ replicate (count_list ts BreakLoopEventTypeId) ExitEventTypeId)"
        unfolding t' tr2 using Cons False by (simp add: deliveries_Cons)
      ultimately show ?thesis using e' h' hh' c' by simp
    qed
  qed
qed


lemma post_eq:
  "post sender type data dest s =
     s\<lparr>brk := Suc (brk s), events := events s @ [Suc (brk s)],
       event_heap := (event_heap s)(Suc (brk s) \<mapsto>
         \<lparr>ev_sender = sender, ev_type = type, ev_data = data, ev_destructor = dest\<rparr>)\<rparr>"
  by (simp add: post_def Event_new_def malloc_def EventSystem_emit_def Queue_enqueue_def)

lemma exit_post: "EventSystem_exit s = post NULL BreakLoopEventTypeId NULL NULL s"
  by (simp add: EventSystem_exit_def post_def)

lemma typed_queue_cong:
  "typed_queue s ts \<Longrightarrow> events s' = events s \<Longrightarrow> event_heap s' = event_heap s \<Longrightarrow>
   brk s' = brk s \<Longrightarrow> typed_queue s' ts"
  by (simp add: typed_queue_def pending_def[abs_def])

lemma typed_queue_post:
  assumes "typed_queue s ts"
  shows "typed_queue (post sender t data dest s) (ts @ [t])"
proof -
  let ?s1 = "post sender t data dest s"
  from assms have dq: "distinct (events s)" and all: "list_all2 (pending s) (events s) ts"
    by (simp_all add: typed_queue_def)
  have bound: "\<And>x. x \<in> set (events s) \<Longrightarrow> x \<le> brk s" using all by (rule pending_bound)
  have "list_all2 (pending ?s1) (events s) ts"
    using all
  proof (rule pending_rest)
    fix x assume "x \<in> set (events s)"
    with bound[of x] show "event_heap ?s1 x = event_heap s x" by (auto simp: post_eq)
  qed (simp add: post_eq)
  moreover have "pending ?s1 (Suc (brk s)) t" by (simp add: pending_def post_eq)
  ultimately have "list_all2 (pending ?s1) (events s @ [Suc (brk s)]) (ts @ [t])"
    by (simp add: list_all2_appendI)
  moreover have "Suc (brk s) \<notin> set (events s)" using bound by fastforce
  ultimately show ?thesis using dq by (simp add: typed_queue_def post_eq)
qed

lemma post_keeps:
  "handlers (post a t d f s) = handlers s" "handler_heap (post a t d f s) = handler_heap s"
  "trace (post a t d f s) = trace s" "clock (post a t d f s) = clock s"
  "clock_reads (post a t d f s) = clock_reads s"
  by (simp_all add: post_eq)


lemma trace_pace: "typed_calls (trace (pace c s)) = typed_calls (trace s)"
  by (simp add: pace_def Clock_now_def sleepMillis_def emit_obs_def Let_def typed_calls_def)

lemma pace_keeps: "handlers (pace c s) = handlers s" "events (pace c s) = events s"
  by (simp_all add: pace_def Clock_now_def sleepMillis_def emit_obs_def Let_def)

lemma loop_first_frame:
  "EventSystem_loop cb (Suc m) ea s =
     (case drain cb m True
             (post NULL UpdateEventTypeId ea NULL
                ((post NULL StartEventTypeId NULL NULL s)
                   \<lparr>clock_reads := Suc (Suc (clock_reads s)),
                    elapsedMillis := clock s (Suc (clock_reads s)) - clock s (clock_reads s)\<rparr>)) of
        Inl x \<Rightarrow> Inl x
      | Inr (isRunning, s4) \<Rightarrow>
          if isRunning then frames cb m ea (clock s (Suc (clock_reads s))) (pace (clock s (Suc (clock_reads s))) s4)
          else Inr (pace (clock s (Suc (clock_reads s))) s4))"
  by (simp add: EventSystem_loop_def Clock_now_def Clock_diffMillis_def Let_def post_def
        split_beta EventSystem_emit_def Event_new_def malloc_def Queue_enqueue_def
        split: sum.splits)

lemma loop_observing:
  assumes obs: "observing cb s" and tq: "typed_queue s ts"
    and nr: "RemoveHandlerEventTypeId \<notin> set ts" and br: "BreakLoopEventTypeId \<in> set ts"
    and fuel: "length ts + count_list ts BreakLoopEventTypeId + length (handlers s) + 3 < n"
  shows "\<exists>s'. EventSystem_loop cb n ea s = Inr s' \<and> events s' = [] \<and> handlers s' = handlers s
      \<and> typed_calls (trace s') = typed_calls (trace s) @
           deliveries (handlers s)
             (filter (\<lambda>t. t \<noteq> BreakLoopEventTypeId) ts
              @ [StartEventTypeId, UpdateEventTypeId]
              @ replicate (count_list ts BreakLoopEventTypeId) ExitEventTypeId)"
proof -
  from fuel obtain m where n: "n = Suc m" by (cases n) auto
  let ?ts = "ts @ [StartEventTypeId] @ [UpdateEventTypeId]"
  let ?s1 = "post NULL StartEventTypeId NULL NULL s"
  let ?s2 = "?s1\<lparr>clock_reads := Suc (Suc (clock_reads s)),
                  elapsedMillis := clock s (Suc (clock_reads s)) - clock s (clock_reads s)\<rparr>"
  let ?s3 = "post NULL UpdateEventTypeId ea NULL ?s2"
  let ?c = "clock s (Suc (clock_reads s))"
  have "typed_queue ?s1 (ts @ [StartEventTypeId])" using tq by (rule typed_queue_post)
  then have "typed_queue ?s2 (ts @ [StartEventTypeId])" by (rule typed_queue_cong) simp_all
  then have "typed_queue ?s3 ((ts @ [StartEventTypeId]) @ [UpdateEventTypeId])" by (rule typed_queue_post)
  then have tq3: "typed_queue ?s3 ?ts" by simp
  have h3: "handlers ?s3 = handlers s" and t3: "trace ?s3 = trace s" by (simp_all add: post_keeps)
  have obs3: "observing cb ?s3" using obs by (rule observing_cong) (simp_all add: post_keeps)
  have nr3: "RemoveHandlerEventTypeId \<notin> set ?ts" using nr Exit_not_internal by auto
  have fuel3: "length ?ts + count_list ?ts BreakLoopEventTypeId + length (handlers ?s3) < m"
    using fuel n Exit_not_internal by (simp add: h3)
  from drain_observing[OF obs3 tq3 nr3 fuel3, of True] br obtain s4 where
    run: "drain cb m True ?s3 = Inr (False, s4)" and e4: "events s4 = []"
    and h4: "handlers s4 = handlers s"
    and t4: "typed_calls (trace s4) = typed_calls (trace s) @
           deliveries (handlers s)
             (filter (\<lambda>t. t \<noteq> BreakLoopEventTypeId) ?ts
              @ replicate (count_list ?ts BreakLoopEventTypeId) ExitEventTypeId)"
    by (auto simp: h3 t3)
  have "EventSystem_loop cb n ea s = Inr (pace ?c s4)"
    unfolding n loop_first_frame run by simp
  moreover have "typed_calls (trace (pace ?c s4)) = typed_calls (trace s) @
           deliveries (handlers s)
             (filter (\<lambda>t. t \<noteq> BreakLoopEventTypeId) ts
              @ [StartEventTypeId, UpdateEventTypeId]
              @ replicate (count_list ts BreakLoopEventTypeId) ExitEventTypeId)"
    unfolding trace_pace t4 using Exit_not_internal by simp
  ultimately show ?thesis using e4 h4 by (simp add: pace_keeps)
qed


text \<open>
  C4. One handler \<open>H\<close> is created and registered after \<open>init\<close>; its callback only
  observes. \<open>exit()\<close> is called, then \<open>loop()\<close> is run. With fuel for one frame the loop
  returns, and on the way it has invoked the callback of \<open>H\<close> exactly three times: with
  a Start event, then an Update event, then an Exit event.
\<close>

theorem exit_before_loop_three_events:
  assumes new: "EventHandler_new data dest fn (EventSystem_init s0) = Inr (H, s1)"
    and fn: "fn \<noteq> NULL"
    and observes: "\<forall>self ev w. cb fn self ev w = Return"
    and fuel: "6 < n"
  shows "\<exists>s'. EventSystem_loop cb n ea (EventSystem_exit (EventSystem_addHandler H s1)) = Inr s'
     \<and> handlers s' = [H] \<and> events s' = []
     \<and> typed_calls (trace s') = typed_calls (trace s0) @
          [(H, Some StartEventTypeId), (H, Some UpdateEventTypeId), (H, Some ExitEventTypeId)]"
proof -
  let ?s2 = "EventSystem_addHandler H s1"
  let ?s3 = "EventSystem_exit ?s2"
  from EventHandler_new_fields[OF new]
  have f1: "handlers s1 = []" "events s1 = []" "trace s1 = trace s0" "H = Suc (brk s0)"
    "handler_heap s1 H = Some \<lparr>h_data = data, h_destructor = dest, h_handler = fn, h_refCount = 1\<rparr>"
    by (simp_all add: EventSystem_init_def List_new_def Queue_new_def)
  have h2: "handlers ?s2 = [H]" and e2: "events ?s2 = []" and t2: "trace ?s2 = trace s0"
    and hh2: "handler_heap ?s2 = handler_heap s1"
    using f1 by (simp_all add: addHandler_fields)
  have "typed_queue ?s2 []" using e2 by (simp add: typed_queue_def)
  then have "typed_queue (post NULL BreakLoopEventTypeId NULL NULL ?s2) ([] @ [BreakLoopEventTypeId])"
    by (rule typed_queue_post)
  then have tq: "typed_queue ?s3 [BreakLoopEventTypeId]" by (simp add: exit_post)
  have h3: "handlers ?s3 = [H]" and t3: "trace ?s3 = trace s0"
    and hh3: "handler_heap ?s3 = handler_heap s1"
    using h2 t2 hh2 by (simp_all add: exit_fields)
  have obs: "observing cb ?s3"
    unfolding observing_def h3 hh3 using f1 fn observes by simp
  have fuel3: "length [BreakLoopEventTypeId] + count_list [BreakLoopEventTypeId] BreakLoopEventTypeId
      + length (handlers ?s3) + 3 < n" using fuel h3 by simp
  have nr: "RemoveHandlerEventTypeId \<notin> set [BreakLoopEventTypeId]"
    by (simp add: BreakLoopEventTypeId_def)
  have br: "BreakLoopEventTypeId \<in> set [BreakLoopEventTypeId]" by simp
  from loop_observing[OF obs tq nr br fuel3, of ea] h3 t3
  show ?thesis by (auto simp: deliveries_def)
qed

theorem exit_before_loop_three_events_witness:
  "EventHandler_new NULL NULL 7 (EventSystem_init demo_world) =
     Inr (1, snd (projr (EventHandler_new NULL NULL 7 (EventSystem_init demo_world))))
   \<and> (\<forall>self ev w. demo_cb 7 self ev w = Return)
   \<and> (\<exists>s'. EventSystem_loop demo_cb 7 99
         (EventSystem_exit (EventSystem_addHandler 1
            (snd (projr (EventHandler_new NULL NULL 7 (EventSystem_init demo_world)))))) = Inr s'
       \<and> handlers s' = [1] \<and> events s' = []
       \<and> typed_calls (trace s') = [(1, Some StartEventTypeId), (1, Some UpdateEventTypeId), (1, Some ExitEventTypeId)])"
proof -
  have new: "EventHandler_new NULL NULL 7 (EventSystem_init demo_world) =
     Inr (1, snd (projr (EventHandler_new NULL NULL 7 (EventSystem_init demo_world))))"
    by (simp add: EventHandler_new_def malloc_def EventSystem_init_def demo_world_def)
  have fn: "(7::nat) \<noteq> NULL" by simp
  have observes: "\<forall>self ev w. demo_cb 7 self ev w = Return" by (simp add: demo_cb_def)
  have fuel: "6 < (7::nat)" by simp
  from exit_before_loop_three_events[where cb = demo_cb and ea = 99, OF new fn observes fuel] new observes
  show ?thesis by (simp add: demo_world_def typed_calls_def)
qed




subsection \<open>Events are destroyed once\<close>





















































subsection \<open>Handling, loop and cleanup return\<close>




















end
